theory Spec2Isabelle
  imports Complex_Main "HOL-Library.Word"
begin

section \<open>Solidity value types and checked arithmetic\<close>

text \<open>
  The contract \<^verbatim>\<open>DataPurchaseRandomizer\<close> is compiled with \<^verbatim>\<open>pragma solidity ^0.8.19\<close>:
  every \<^verbatim>\<open>+\<close>, \<^verbatim>\<open>-\<close>, \<^verbatim>\<open>*\<close> and unary minus is checked and reverts with
  \<^verbatim>\<open>Panic(0x11)\<close> when the mathematical result leaves the type, \<^verbatim>\<open>%\<close> and \<^verbatim>\<open>/\<close>
  revert with \<^verbatim>\<open>Panic(0x12)\<close> on a zero divisor, and the explicit conversions
  \<^verbatim>\<open>int256(uint256)\<close> and \<^verbatim>\<open>uint256(int256)\<close> keep the 256 bits as they are.
  A \<^verbatim>\<open>uint256\<close>, an \<^verbatim>\<open>int256\<close> and a \<^verbatim>\<open>bytes32\<close> are 256-bit words (read with
  \<open>uint\<close>, respectively \<open>sint\<close>), an \<^verbatim>\<open>address\<close> is a 160-bit word.
\<close>

type_synonym uint256 = "256 word"
type_synonym int256 = "256 word"
type_synonym bytes32 = "256 word"
type_synonym address = "160 word"

datatype error =
    Revert string       \<comment> \<open>a failed \<^verbatim>\<open>require(cond, message)\<close>\<close>
  | Panic nat           \<comment> \<open>a failed compiler check, with its code: 17 is 0x11, 18 is 0x12\<close>
  | CallFailed          \<comment> \<open>an external call or a transfer that reverted\<close>

definition checked_add :: "uint256 \<Rightarrow> uint256 \<Rightarrow> error + uint256" where
  "checked_add a b = (if uint a + uint b < 2 ^ 256 then Inr (a + b) else Inl (Panic 17))"

definition checked_sub :: "uint256 \<Rightarrow> uint256 \<Rightarrow> error + uint256" where
  "checked_sub a b = (if uint b \<le> uint a then Inr (a - b) else Inl (Panic 17))"

definition checked_mul :: "uint256 \<Rightarrow> uint256 \<Rightarrow> error + uint256" where
  "checked_mul a b = (if uint a * uint b < 2 ^ 256 then Inr (a * b) else Inl (Panic 17))"

definition checked_mod :: "uint256 \<Rightarrow> uint256 \<Rightarrow> error + uint256" where
  "checked_mod a b = (if b = 0 then Inl (Panic 18) else Inr (a mod b))"

definition checked_div :: "uint256 \<Rightarrow> uint256 \<Rightarrow> error + uint256" where
  "checked_div a b = (if b = 0 then Inl (Panic 18) else Inr (a div b))"

definition checked_sub_int :: "int256 \<Rightarrow> int256 \<Rightarrow> error + int256" where
  "checked_sub_int a b =
     (if - (2 ^ 255) \<le> sint a - sint b \<and> sint a - sint b < 2 ^ 255 then Inr (a - b)
      else Inl (Panic 17))"

definition checked_neg_int :: "int256 \<Rightarrow> error + int256" where
  "checked_neg_int a = (if sint a = - (2 ^ 255) then Inl (Panic 17) else Inr (- a))"

section \<open>The contract DataPurchaseRandomizer\<close>

subsection \<open>Storage, events and the outside world\<close>

datatype event = RandomnessStored bytes32 uint256 bool uint256

text \<open>
  The state variables of the contract, each mapping as the total function it is in
  Solidity (an absent key reads as zero or false), together with the ether the contract
  holds and the log of events it has emitted.
\<close>

record state =
  owner :: address
  registry :: address
  userProvidedIdToRandomValue :: "bytes32 \<Rightarrow> uint256"
  userProvidedIdFulfilled :: "bytes32 \<Rightarrow> bool"
  userProvidedIdToTimestamp :: "bytes32 \<Rightarrow> uint256"
  userProvidedIdIsSecure :: "bytes32 \<Rightarrow> bool"
  balance :: uint256
  events :: "event list"

text \<open>
  What the contract reaches outside itself: the registry contract at an address
  (\<^verbatim>\<open>IContractRegistry.getContractAddressByName\<close>), the beacon at an address
  (\<^verbatim>\<open>IRandomNumberV2.getRandomNumber\<close>), both \<open>None\<close> when the call reverts or the
  address holds no such contract, and whether an account accepts a \<^verbatim>\<open>transfer\<close>.
\<close>

record env =
  getContractAddressByName :: "address \<Rightarrow> string \<Rightarrow> address option"
  getRandomNumber :: "address \<Rightarrow> (uint256 \<times> bool \<times> uint256) option"
  accepts_transfer :: "address \<Rightarrow> uint256 \<Rightarrow> bool"

definition constructor :: "address \<Rightarrow> address \<Rightarrow> state" where
  "constructor msg_sender registry' =
     \<lparr> owner = msg_sender, registry = registry',
       userProvidedIdToRandomValue = (\<lambda>_. 0),
       userProvidedIdFulfilled = (\<lambda>_. False),
       userProvidedIdToTimestamp = (\<lambda>_. 0),
       userProvidedIdIsSecure = (\<lambda>_. False),
       balance = 0, events = [] \<rparr>"

definition onlyOwner :: "address \<Rightarrow> state \<Rightarrow> error + unit" where
  "onlyOwner msg_sender s = (if msg_sender = owner s then Inr () else Inl (Revert ''Only owner''))"

subsection \<open>Functions\<close>

definition srng :: "env \<Rightarrow> state \<Rightarrow> error + address" where
  "srng e s =
     (case getContractAddressByName e (registry s) ''RandomNumberV2'' of
        None \<Rightarrow> Inl CallFailed
      | Some rng \<Rightarrow> if rng \<noteq> 0 then Inr rng else Inl (Revert ''SRNG not resolved''))"

definition storeRandomness ::
  "env \<Rightarrow> bytes32 \<Rightarrow> state \<Rightarrow> error + ((uint256 \<times> bool \<times> uint256) \<times> state)" where
  "storeRandomness e userProvidedId s =
     (if userProvidedIdFulfilled s userProvidedId then Inl (Revert ''Already fulfilled'')
      else case srng e s of
        Inl err \<Rightarrow> Inl err
      | Inr rng \<Rightarrow>
         (case getRandomNumber e rng of
            None \<Rightarrow> Inl CallFailed
          | Some (randomValue, isSecure, randomTimestamp) \<Rightarrow>
              if randomValue \<noteq> 0 then
                Inr ((randomValue, isSecure, randomTimestamp),
                  s\<lparr> userProvidedIdToRandomValue :=
                        (userProvidedIdToRandomValue s)(userProvidedId := randomValue),
                      userProvidedIdIsSecure :=
                        (userProvidedIdIsSecure s)(userProvidedId := isSecure),
                      userProvidedIdToTimestamp :=
                        (userProvidedIdToTimestamp s)(userProvidedId := randomTimestamp),
                      userProvidedIdFulfilled :=
                        (userProvidedIdFulfilled s)(userProvidedId := True),
                      events := events s @
                        [RandomnessStored userProvidedId randomValue isSecure randomTimestamp] \<rparr>)
              else Inl (Revert ''SRNG not ready'')))"

definition getRandomValue :: "bytes32 \<Rightarrow> state \<Rightarrow> uint256 \<times> bool" where
  "getRandomValue userProvidedId s =
     (userProvidedIdToRandomValue s userProvidedId, userProvidedIdFulfilled s userProvidedId)"

definition getRandomnessMeta :: "bytes32 \<Rightarrow> state \<Rightarrow> bool \<times> uint256 \<times> bool" where
  "getRandomnessMeta userProvidedId s =
     (if \<not> userProvidedIdFulfilled s userProvidedId then (False, 0, False)
      else (userProvidedIdIsSecure s userProvidedId,
            userProvidedIdToTimestamp s userProvidedId, True))"

definition getNormalizedRandomValue :: "bytes32 \<Rightarrow> state \<Rightarrow> error + (uint256 \<times> bool)" where
  "getNormalizedRandomValue userProvidedId s =
     (if \<not> userProvidedIdFulfilled s userProvidedId then Inr (0, False)
      else case checked_mod (userProvidedIdToRandomValue s userProvidedId) 1000 of
        Inl err \<Rightarrow> Inl err
      | Inr normalizedValue \<Rightarrow> Inr (normalizedValue, True))"

text \<open>
  Line 170 of the contract,
  \<^verbatim>\<open>int256(randomValue % (2 * _variationPercent + 1)) - int256(_variationPercent)\<close>:
  the product, the sum and the signed difference are checked, the two conversions are not.
\<close>

definition variationFactor_of :: "uint256 \<Rightarrow> uint256 \<Rightarrow> error + int256" where
  "variationFactor_of randomValue variationPercent =
     (case checked_mul 2 variationPercent of
        Inl err \<Rightarrow> Inl err
      | Inr twice \<Rightarrow>
         (case checked_add twice 1 of
            Inl err \<Rightarrow> Inl err
          | Inr modulus \<Rightarrow>
             (case checked_mod randomValue modulus of
                Inl err \<Rightarrow> Inl err
              | Inr x \<Rightarrow> checked_sub_int x variationPercent)))"

text \<open>
  Lines 173 to 177, the two branches that apply the factor to the base price:
  \<^verbatim>\<open>_basePrice + (_basePrice * uint256(variationFactor) / 100)\<close> and
  \<^verbatim>\<open>_basePrice - (_basePrice * uint256(-variationFactor) / 100)\<close>.
\<close>

definition finalPrice_of :: "uint256 \<Rightarrow> int256 \<Rightarrow> error + uint256" where
  "finalPrice_of basePrice variationFactor =
     (if 0 \<le> sint variationFactor then
        (case checked_mul basePrice variationFactor of
           Inl err \<Rightarrow> Inl err
         | Inr product \<Rightarrow>
            (case checked_div product 100 of
               Inl err \<Rightarrow> Inl err
             | Inr adjustment \<Rightarrow> checked_add basePrice adjustment))
      else
        (case checked_neg_int variationFactor of
           Inl err \<Rightarrow> Inl err
         | Inr magnitude \<Rightarrow>
            (case checked_mul basePrice magnitude of
               Inl err \<Rightarrow> Inl err
             | Inr product \<Rightarrow>
                (case checked_div product 100 of
                   Inl err \<Rightarrow> Inl err
                 | Inr adjustment \<Rightarrow> checked_sub basePrice adjustment))))"

definition getRandomPriceVariation ::
  "bytes32 \<Rightarrow> uint256 \<Rightarrow> uint256 \<Rightarrow> state \<Rightarrow> error + (uint256 \<times> int256 \<times> bool)" where
  "getRandomPriceVariation userProvidedId basePrice variationPercent s =
     (if \<not> userProvidedIdFulfilled s userProvidedId then Inr (basePrice, 0, False)
      else case variationFactor_of (userProvidedIdToRandomValue s userProvidedId) variationPercent of
        Inl err \<Rightarrow> Inl err
      | Inr variationFactor \<Rightarrow>
         (case finalPrice_of basePrice variationFactor of
            Inl err \<Rightarrow> Inl err
          | Inr finalPrice \<Rightarrow> Inr (finalPrice, variationFactor, True)))"

definition updateRegistry :: "address \<Rightarrow> address \<Rightarrow> state \<Rightarrow> error + state" where
  "updateRegistry msg_sender registry' s =
     (case onlyOwner msg_sender s of
        Inl err \<Rightarrow> Inl err
      | Inr _ \<Rightarrow> Inr (s\<lparr> registry := registry' \<rparr>))"

definition withdraw :: "env \<Rightarrow> address \<Rightarrow> state \<Rightarrow> error + state" where
  "withdraw e msg_sender s =
     (case onlyOwner msg_sender s of
        Inl err \<Rightarrow> Inl err
      | Inr _ \<Rightarrow>
          if accepts_transfer e (owner s) (balance s) then Inr (s\<lparr> balance := 0 \<rparr>)
          else Inl CallFailed)"

definition receive :: "uint256 \<Rightarrow> state \<Rightarrow> state" where
  "receive msg_value s = s\<lparr> balance := balance s + msg_value \<rparr>"

subsection \<open>Transactions\<close>

text \<open>
  Every entry point of the contract: its external functions, \<^verbatim>\<open>receive\<close> and the getters
  the compiler generates for the public state variables. A call either returns a value and
  a new state, or reverts: then the state is the one before the call. Only \<^verbatim>\<open>receive\<close>
  carries ether: no function of the contract is payable, and a payment to one is rejected
  before any of its code runs.
\<close>

datatype call =
    StoreRandomness bytes32
  | GetRandomValue bytes32
  | GetRandomnessMeta bytes32
  | GetNormalizedRandomValue bytes32
  | GetRandomPriceVariation bytes32 uint256 uint256
  | UpdateRegistry address
  | Withdraw
  | Receive uint256
  | Get_owner
  | Get_registry
  | Get_userProvidedIdToRandomValue bytes32
  | Get_userProvidedIdFulfilled bytes32
  | Get_userProvidedIdToTimestamp bytes32
  | Get_userProvidedIdIsSecure bytes32

datatype retval =
    RNone
  | RStored uint256 bool uint256
  | RValue uint256 bool
  | RMeta bool uint256 bool
  | RPrice uint256 int256 bool
  | RAddress address
  | RUint uint256
  | RBool bool

fun dispatch :: "env \<Rightarrow> address \<Rightarrow> call \<Rightarrow> state \<Rightarrow> error + (retval \<times> state)" where
  "dispatch e msg_sender (StoreRandomness i) s =
     (case storeRandomness e i s of
        Inl err \<Rightarrow> Inl err
      | Inr ((v, sec, ts), s') \<Rightarrow> Inr (RStored v sec ts, s'))"
| "dispatch e msg_sender (GetRandomValue i) s =
     (case getRandomValue i s of (v, f) \<Rightarrow> Inr (RValue v f, s))"
| "dispatch e msg_sender (GetRandomnessMeta i) s =
     (case getRandomnessMeta i s of (sec, ts, f) \<Rightarrow> Inr (RMeta sec ts f, s))"
| "dispatch e msg_sender (GetNormalizedRandomValue i) s =
     (case getNormalizedRandomValue i s of
        Inl err \<Rightarrow> Inl err
      | Inr (v, f) \<Rightarrow> Inr (RValue v f, s))"
| "dispatch e msg_sender (GetRandomPriceVariation i b p) s =
     (case getRandomPriceVariation i b p s of
        Inl err \<Rightarrow> Inl err
      | Inr (fp, vf, f) \<Rightarrow> Inr (RPrice fp vf f, s))"
| "dispatch e msg_sender (UpdateRegistry r) s =
     (case updateRegistry msg_sender r s of
        Inl err \<Rightarrow> Inl err
      | Inr s' \<Rightarrow> Inr (RNone, s'))"
| "dispatch e msg_sender Withdraw s =
     (case withdraw e msg_sender s of
        Inl err \<Rightarrow> Inl err
      | Inr s' \<Rightarrow> Inr (RNone, s'))"
| "dispatch e msg_sender (Receive v) s = Inr (RNone, receive v s)"
| "dispatch e msg_sender Get_owner s = Inr (RAddress (owner s), s)"
| "dispatch e msg_sender Get_registry s = Inr (RAddress (registry s), s)"
| "dispatch e msg_sender (Get_userProvidedIdToRandomValue i) s =
     Inr (RUint (userProvidedIdToRandomValue s i), s)"
| "dispatch e msg_sender (Get_userProvidedIdFulfilled i) s =
     Inr (RBool (userProvidedIdFulfilled s i), s)"
| "dispatch e msg_sender (Get_userProvidedIdToTimestamp i) s =
     Inr (RUint (userProvidedIdToTimestamp s i), s)"
| "dispatch e msg_sender (Get_userProvidedIdIsSecure i) s =
     Inr (RBool (userProvidedIdIsSecure s i), s)"

definition transact :: "env \<Rightarrow> address \<Rightarrow> call \<Rightarrow> state \<Rightarrow> (error + retval) \<times> state" where
  "transact e msg_sender c s =
     (case dispatch e msg_sender c s of
        Inl err \<Rightarrow> (Inl err, s)
      | Inr (r, s') \<Rightarrow> (Inr r, s'))"

text \<open>
  A history of the contract: transactions one after the other, each with its own sender
  and its own view of the outside world (the beacon changes from round to round).
\<close>

fun run :: "(env \<times> address \<times> call) list \<Rightarrow> state \<Rightarrow> state" where
  "run [] s = s"
| "run ((e, msg_sender, c) # txs) s = run txs (snd (transact e msg_sender c s))"

text \<open>
  The calls that are declared \<^verbatim>\<open>view\<close> in the contract (the generated getters included).
\<close>

fun is_view :: "call \<Rightarrow> bool" where
  "is_view (StoreRandomness _) = False"
| "is_view (UpdateRegistry _) = False"
| "is_view Withdraw = False"
| "is_view (Receive _) = False"
| "is_view _ = True"

text \<open>Two states hold the same randomness record for an id.\<close>

definition same_record :: "bytes32 \<Rightarrow> state \<Rightarrow> state \<Rightarrow> bool" where
  "same_record i s s' \<longleftrightarrow>
     userProvidedIdFulfilled s' i = userProvidedIdFulfilled s i \<and>
     userProvidedIdToRandomValue s' i = userProvidedIdToRandomValue s i \<and>
     userProvidedIdIsSecure s' i = userProvidedIdIsSecure s i \<and>
     userProvidedIdToTimestamp s' i = userProvidedIdToTimestamp s i"


section \<open>The Ledger: contract DataPurchase\<close>

text \<open>
  Modelled from the spec: the source of the Ledger contract (\<^verbatim>\<open>contracts/DataPurchase.sol\<close>)
  is not among the repository's files; only its ABI (\<^verbatim>\<open>purchase\<close>, \<^verbatim>\<open>deliverData\<close>, the
  events \<^verbatim>\<open>DataRequested\<close> and \<^verbatim>\<open>DataDelivered\<close>) and a test script are. The request
  record and its lifecycle follow section 3 of the specification.
\<close>

datatype request_state = Created | AttestationRequested | AttestationVerified | Delivered | Failed

record purchase_request =
  buyer :: address
  amountPaid :: nat
  reqState :: request_state
  dataHash :: "bytes32 option"

datatype ledger_event = DataRequested address bytes32 | DataDelivered bytes32 bytes32

datatype ledger_error =
    DuplicateRequest | InsufficientPayment | UnknownRequest | AlreadyDelivered | InvalidProof

type_synonym bytes = "8 word list"

text \<open>
  Modelled from the spec: the Ledger's store (requests by id, never deleted), the funds it
  holds in escrow, the funds it has released to the configured payee, and its event log.
\<close>

record ledger =
  requests :: "bytes32 \<rightharpoonup> purchase_request"
  escrowed :: nat
  released :: nat
  ledger_events :: "ledger_event list"

text \<open>
  Modelled from the spec: what the specification leaves to the deployment, namely the
  required minimum payment, the configured payee, the local verification of a proof
  against an attestation response, and the computation of the data hash.
\<close>

record ledger_config =
  minimumPayment :: nat
  payee :: address
  verifyProof :: "bytes32 \<Rightarrow> bytes \<Rightarrow> bool"
  computeDataHash :: "bytes32 \<Rightarrow> bytes32 \<Rightarrow> bytes \<Rightarrow> bytes32"

text \<open>
  Modelled from the spec: \<^verbatim>\<open>purchase(requestId, payment)\<close> of section 4.1, whose source
  (\<^verbatim>\<open>DataPurchase.sol\<close>) is missing. It fails with \<open>DuplicateRequest\<close> when the id exists
  and with \<open>InsufficientPayment\<close> below the minimum; otherwise it escrows the payment,
  creates the request in state \<open>Created\<close> and emits the event.
\<close>

definition purchase ::
  "ledger_config \<Rightarrow> address \<Rightarrow> bytes32 \<Rightarrow> nat \<Rightarrow> ledger \<Rightarrow> ledger_error + ledger" where
  "purchase cfg msg_sender requestId payment L =
     (case requests L requestId of
        Some _ \<Rightarrow> Inl DuplicateRequest
      | None \<Rightarrow>
          if payment < minimumPayment cfg then Inl InsufficientPayment
          else Inr (L\<lparr> requests := (requests L)(requestId \<mapsto>
                          \<lparr> buyer = msg_sender, amountPaid = payment,
                            reqState = Created, dataHash = None \<rparr>),
                        escrowed := escrowed L + payment,
                        ledger_events := ledger_events L @ [DataRequested msg_sender requestId] \<rparr>))"

text \<open>
  Modelled from the spec: \<^verbatim>\<open>deliverData(requestId, attestationResponse, proof)\<close> of section
  4.1, whose source (\<^verbatim>\<open>DataPurchase.sol\<close>) is missing. The three failures are checked in
  the order the specification lists them: \<open>UnknownRequest\<close>, \<open>AlreadyDelivered\<close>,
  \<open>InvalidProof\<close>. On success the request becomes \<open>Delivered\<close>, its data hash is stored,
  its escrowed amount is released and the event is emitted.
\<close>

definition deliverData ::
  "ledger_config \<Rightarrow> bytes32 \<Rightarrow> bytes32 \<Rightarrow> bytes \<Rightarrow> ledger \<Rightarrow> ledger_error + ledger" where
  "deliverData cfg requestId attestationResponse proof' L =
     (case requests L requestId of
        None \<Rightarrow> Inl UnknownRequest
      | Some r \<Rightarrow>
          if reqState r = Delivered then Inl AlreadyDelivered
          else if \<not> verifyProof cfg attestationResponse proof' then Inl InvalidProof
          else
            (let h = computeDataHash cfg requestId attestationResponse proof' in
             Inr (L\<lparr> requests := (requests L)(requestId \<mapsto>
                          r\<lparr> reqState := Delivered, dataHash := Some h \<rparr>),
                      escrowed := escrowed L - amountPaid r,
                      released := released L + amountPaid r,
                      ledger_events := ledger_events L @ [DataDelivered requestId h] \<rparr>)))"

text \<open>
  Modelled from the spec: the two operations are the only ones that change the Ledger, and
  both are atomic, so a failed operation leaves the Ledger as it was.
\<close>

datatype ledger_op =
    Purchase address bytes32 nat
  | DeliverData bytes32 bytes32 bytes

fun ledger_apply :: "ledger_config \<Rightarrow> ledger_op \<Rightarrow> ledger \<Rightarrow> (ledger_error + unit) \<times> ledger" where
  "ledger_apply cfg (Purchase msg_sender requestId payment) L =
     (case purchase cfg msg_sender requestId payment L of
        Inl err \<Rightarrow> (Inl err, L)
      | Inr L' \<Rightarrow> (Inr (), L'))"
| "ledger_apply cfg (DeliverData requestId attestationResponse proof') L =
     (case deliverData cfg requestId attestationResponse proof' L of
        Inl err \<Rightarrow> (Inl err, L)
      | Inr L' \<Rightarrow> (Inr (), L'))"

fun is_delivery_of :: "bytes32 \<Rightarrow> ledger_op \<Rightarrow> bool" where
  "is_delivery_of requestId (DeliverData requestId' _ _) = (requestId' = requestId)"
| "is_delivery_of requestId (Purchase _ _ _) = False"

text \<open>
  The number of \<^verbatim>\<open>deliverData\<close> calls for one request id that succeed in a history of
  Ledger operations, and the Ledger at the end of the history.
\<close>

fun deliveries :: "ledger_config \<Rightarrow> bytes32 \<Rightarrow> ledger_op list \<Rightarrow> ledger \<Rightarrow> nat" where
  "deliveries cfg requestId [] L = 0"
| "deliveries cfg requestId (x # xs) L =
     (case ledger_apply cfg x L of
        (res, L') \<Rightarrow>
          (if is_delivery_of requestId x \<and> res = Inr () then 1 else 0)
            + deliveries cfg requestId xs L')"

fun ledger_run :: "ledger_config \<Rightarrow> ledger_op list \<Rightarrow> ledger \<Rightarrow> ledger" where
  "ledger_run cfg [] L = L"
| "ledger_run cfg (x # xs) L = ledger_run cfg xs (snd (ledger_apply cfg x L))"

section \<open>The status query of the server: POST /verify\<close>



record mock_result =
  verified :: bool
  status :: string
  message :: string
  attestationResponse :: string
  proof' :: string







section \<open>Concrete inputs\<close>

text \<open>
  An outside world in which the registry at address 1 resolves \<^verbatim>\<open>RandomNumberV2\<close> to the
  beacon at address 2, the beacon reports a given round, and every transfer is accepted.
\<close>

definition world :: "uint256 \<times> bool \<times> uint256 \<Rightarrow> env" where
  "world beacon =
     \<lparr> getContractAddressByName = (\<lambda>a n. if a = 1 \<and> n = ''RandomNumberV2'' then Some 2 else None),
       getRandomNumber = (\<lambda>a. if a = 2 then Some beacon else None),
       accepts_transfer = (\<lambda>_ _. True) \<rparr>"

text \<open>A contract deployed by account 7 with the registry at address 1.\<close>

definition deployed :: state where
  "deployed = constructor 7 1"

text \<open>The same contract after \<^verbatim>\<open>storeRandomness(5)\<close> in a round whose value is 1275.\<close>

definition stored5 :: state where
  "stored5 = snd (transact (world (1275, True, 99)) 8 (StoreRandomness 5) deployed)"

definition cfg0 :: ledger_config where
  "cfg0 = \<lparr> minimumPayment = 1, payee = 6, verifyProof = (\<lambda>_ p. p \<noteq> []),
            computeDataHash = (\<lambda>_ resp _. resp) \<rparr>"

definition ledger0 :: ledger where
  "ledger0 = \<lparr> requests = Map.empty, escrowed = 0, released = 0, ledger_events = [] \<rparr>"

text \<open>The Ledger after a purchase of request 9 by account 3 and its delivery.\<close>

definition delivered9 :: ledger where
  "delivered9 = ledger_run cfg0 [Purchase 3 9 10, DeliverData 9 1 [255]] ledger0"


section \<open>Facts about 256-bit words and the checked operations\<close>

lemma signed_take_bit_upper_half:
  fixes k :: int
  assumes "2 ^ n \<le> k" and "k < 2 ^ Suc n"
  shows "signed_take_bit n k = k - 2 ^ Suc n"
proof -
  have "signed_take_bit n k = signed_take_bit n (k - 2 ^ Suc n)"
    by (simp only: signed_take_bit_eq_iff_take_bit_eq take_bit_eq_mod minus_mod_self2)
  also have "\<dots> = k - 2 ^ Suc n"
    by (rule signed_take_bit_int_eq_self) (use assms in simp_all)
  finally show ?thesis .
qed

lemma sint_as_uint:
  "sint (x :: 256 word) = (if uint x < 2 ^ 255 then uint x else uint x - 2 ^ 256)"
proof -
  have b: "uint x < 2 ^ 256" using uint_lt2p [of x] by simp
  have s: "sint x = signed_take_bit 255 (uint x)"
    by (simp add: sint_uint)
  show ?thesis
  proof (cases "uint x < 2 ^ 255")
    case True
    then have "signed_take_bit 255 (uint x) = uint x"
    proof (intro signed_take_bit_int_eq_self)
      have "- (2 ^ 255) \<le> (0 :: int)" by simp
      also have "0 \<le> uint x" by simp
      finally show "- (2 ^ 255) \<le> uint x" .
    qed
    with True s show ?thesis by simp
  next
    case False
    then have "signed_take_bit 255 (uint x) = uint x - 2 ^ Suc 255"
      using b by (intro signed_take_bit_upper_half) simp_all
    with False s show ?thesis by simp
  qed
qed

lemma uint_lt_2p256: "uint (x :: 256 word) < 2 ^ 256"
  using uint_lt2p [of x] by simp

lemma checked_add_uint:
  "checked_add a b = Inr c \<Longrightarrow> uint c = uint a + uint b"
  using uint_add_lem [of a b] by (auto simp: checked_add_def split: if_splits)

lemma checked_mul_uint:
  "checked_mul a b = Inr c \<Longrightarrow> uint c = uint a * uint b \<and> uint a * uint b < 2 ^ 256"
  using uint_mult_lem [of a b] by (auto simp: checked_mul_def split: if_splits)

lemma checked_sub_uint:
  "checked_sub a b = Inr c \<Longrightarrow> uint c = uint a - uint b \<and> uint b \<le> uint a"
  using uint_sub_lem [of b a] by (auto simp: checked_sub_def split: if_splits)

lemma checked_mod_uint:
  "checked_mod a b = Inr c \<Longrightarrow> uint c = uint a mod uint b \<and> b \<noteq> 0"
  by (auto simp: checked_mod_def uint_mod split: if_splits)

lemma checked_div_uint:
  "checked_div a b = Inr c \<Longrightarrow> uint c = uint a div uint b \<and> b \<noteq> 0"
  by (auto simp: checked_div_def uint_div split: if_splits)

lemma checked_sub_int_sint:
  assumes "checked_sub_int a b = Inr c"
  shows "sint c = sint a - sint b \<and> - (2 ^ 255) \<le> sint a - sint b \<and> sint a - sint b < 2 ^ 255"
proof -
  from assms have r: "- (2 ^ 255) \<le> sint a - sint b" "sint a - sint b < 2 ^ 255" and c: "c = a - b"
    by (auto simp: checked_sub_int_def split: if_splits)
  have "sint (a - b) = signed_take_bit 255 (sint a - sint b)"
    by (simp add: sint_word_diff)
  also have "\<dots> = sint a - sint b"
    using r by (intro signed_take_bit_int_eq_self)
  finally show ?thesis using r c by simp
qed

lemma checked_neg_int_sint:
  assumes "checked_neg_int a = Inr c"
  shows "sint c = - sint a \<and> sint a \<noteq> - (2 ^ 255)"
proof -
  from assms have r: "sint a \<noteq> - (2 ^ 255)" and c: "c = - a"
    by (auto simp: checked_neg_int_def split: if_splits)
  have lo: "- (2 ^ 255) \<le> sint a" using sint_ge [of a] by simp
  have hi: "sint a < 2 ^ 255" using sint_lt [of a] by simp
  have "sint (- a) = signed_take_bit 255 (- sint a)"
    by (simp add: sint_word_minus)
  also have "\<dots> = - sint a"
    using r lo hi by (intro signed_take_bit_int_eq_self) linarith+
  finally show ?thesis using r c by simp
qed

section \<open>The price computation\<close>

lemma variationFactor_of_Inr:
  assumes "variationFactor_of r P = Inr vf"
  shows "uint P < 2 ^ 255"
    and "sint vf = uint r mod (2 * uint P + 1) - uint P"
proof -
  from assms obtain t m x where
    t: "checked_mul 2 P = Inr t" and m: "checked_add t 1 = Inr m" and
    x: "checked_mod r m = Inr x" and v: "checked_sub_int x P = Inr vf"
    by (auto simp: variationFactor_of_def split: sum.splits)
  from checked_mul_uint [OF t] have ut: "uint t = 2 * uint P" and bt: "2 * uint P < 2 ^ 256"
    by simp_all
  from checked_add_uint [OF m] ut have um: "uint m = 2 * uint P + 1" by simp
  from checked_mod_uint [OF x] um have ux: "uint x = uint r mod (2 * uint P + 1)" by simp
  from checked_sub_int_sint [OF v] have
    sv: "sint vf = sint x - sint P" and lo: "- (2 ^ 255) \<le> sint x - sint P"
    by simp_all
  have P0: "0 \<le> uint P" by simp
  show bP: "uint P < 2 ^ 255" using bt by simp
  then have sP: "sint P = uint P" by (simp add: sint_as_uint)
  have xle: "uint x \<le> 2 * uint P"
    using pos_mod_bound [of "2 * uint P + 1" "uint r"] P0 ux by linarith
  have "uint x < 2 ^ 255"
  proof (rule ccontr)
    assume "\<not> uint x < 2 ^ 255"
    then have "sint x = uint x - 2 ^ 256" by (simp add: sint_as_uint)
    with lo sP xle bP show False by simp
  qed
  then have "sint x = uint x" by (simp add: sint_as_uint)
  with sv sP ux show "sint vf = uint r mod (2 * uint P + 1) - uint P" by simp
qed

lemma variationFactor_of_range:
  assumes "variationFactor_of r P = Inr vf"
  shows "- uint P \<le> sint vf \<and> sint vf \<le> uint P"
proof -
  have P0: "0 \<le> uint P" by simp
  have "0 \<le> uint r mod (2 * uint P + 1)" using P0 by (intro pos_mod_sign) linarith
  moreover have "uint r mod (2 * uint P + 1) < 2 * uint P + 1"
    using P0 by (intro pos_mod_bound) linarith
  ultimately show ?thesis using variationFactor_of_Inr(2) [OF assms] by linarith
qed

lemma variationFactor_of_total:
  assumes "uint P < 2 ^ 254"
  shows "\<exists>vf. variationFactor_of r P = Inr vf"
proof -
  have P0: "0 \<le> uint P" by simp
  have u2: "uint (2 :: 256 word) = 2" by simp
  have t: "checked_mul 2 P = Inr (2 * P)" using assms by (simp add: checked_mul_def)
  have ut: "uint (2 * P) = 2 * uint P"
    using checked_mul_uint [OF t] by simp
  have m: "checked_add (2 * P) 1 = Inr (2 * P + 1)" using assms ut by (simp add: checked_add_def)
  have um: "uint (2 * P + 1) = 2 * uint P + 1"
    using checked_add_uint [OF m] ut by simp
  have ne: "2 * P + 1 \<noteq> 0"
  proof
    assume "2 * P + 1 = 0"
    then have "uint (2 * P + 1) = 0" by simp
    with um P0 show False by linarith
  qed
  have x: "checked_mod r (2 * P + 1) = Inr (r mod (2 * P + 1))"
    using ne by (simp add: checked_mod_def)
  have ux: "uint (r mod (2 * P + 1)) = uint r mod (2 * uint P + 1)"
    by (simp add: uint_mod um)
  define y where "y = uint r mod (2 * uint P + 1)"
  define p where "p = uint P"
  have x0: "0 \<le> y" unfolding y_def using P0 by (intro pos_mod_sign) linarith
  have xb: "y < 2 * p + 1"
    unfolding y_def p_def using P0 by (intro pos_mod_bound) linarith
  have pb: "p < 2 ^ 254" "0 \<le> p" using assms by (simp_all add: p_def)
  have xs: "y < 2 ^ 255" using xb pb by simp
  have sx: "sint (r mod (2 * P + 1)) = y"
    using xs ux by (simp add: sint_as_uint y_def)
  have sP: "sint P = p" using assms by (simp add: sint_as_uint p_def)
  have rng: "- (2 ^ 255) \<le> y - p \<and> y - p < 2 ^ 255"
    using x0 xb pb by simp
  have "checked_sub_int (r mod (2 * P + 1)) P = Inr (r mod (2 * P + 1) - P)"
    unfolding checked_sub_int_def sx sP using rng by simp
  then show ?thesis
    by (simp add: variationFactor_of_def t m x)
qed

lemma uint_of_nonneg_sint:
  assumes "0 \<le> sint (v :: 256 word)"
  shows "uint v = sint v"
proof (cases "uint v < 2 ^ 255")
  case True
  then show ?thesis by (simp add: sint_as_uint)
next
  case False
  then have "sint v = uint v - 2 ^ 256" by (simp add: sint_as_uint)
  moreover have "uint v < 2 ^ 256" by (rule uint_lt_2p256)
  ultimately show ?thesis using assms by simp
qed

lemma uint_100: "uint (100 :: 256 word) = 100"
  by simp

lemma finalPrice_of_Inr:
  assumes "finalPrice_of B vf = Inr fp"
  shows "uint fp = (if 0 \<le> sint vf then uint B + uint B * sint vf div 100
                    else uint B - uint B * \<bar>sint vf\<bar> div 100)"
proof (cases "0 \<le> sint vf")
  case True
  with assms obtain q a where
    q: "checked_mul B vf = Inr q" and a: "checked_div q 100 = Inr a" and
    f: "checked_add B a = Inr fp"
    by (auto simp: finalPrice_of_def split: sum.splits)
  have "uint q = uint B * sint vf"
    using checked_mul_uint [OF q] uint_of_nonneg_sint [OF True] by simp
  moreover have "uint a = uint q div 100"
    using checked_div_uint [OF a] by (simp only: uint_100)
  moreover have "uint fp = uint B + uint a" using checked_add_uint [OF f] .
  ultimately show ?thesis using True by simp
next
  case False
  with assms obtain m q a where
    m: "checked_neg_int vf = Inr m" and
    q: "checked_mul B m = Inr q" and a: "checked_div q 100 = Inr a" and
    f: "checked_sub B a = Inr fp"
    by (auto simp: finalPrice_of_def split: sum.splits)
  have sm: "sint m = - sint vf" using checked_neg_int_sint [OF m] by simp
  then have "0 \<le> sint m" using False by simp
  then have um: "uint m = \<bar>sint vf\<bar>" using uint_of_nonneg_sint [of m] sm False by simp
  have "uint q = uint B * \<bar>sint vf\<bar>"
    using checked_mul_uint [OF q] um by simp
  moreover have "uint a = uint q div 100"
    using checked_div_uint [OF a] by (simp only: uint_100)
  moreover have "uint fp = uint B - uint a" using checked_sub_uint [OF f] by simp
  ultimately show ?thesis using False by simp
qed

lemma checked_div_100: "checked_div q 100 = Inr (q div 100)"
  by (simp add: checked_div_def)

lemma uint_div_100: "uint ((q :: 256 word) div 100) = uint q div 100"
  by (simp only: uint_div uint_100)

lemma finalPrice_of_total:
  assumes v: "\<bar>sint vf\<bar> \<le> p" and p: "p \<le> 100"
    and mul: "uint B * p < 2 ^ 256" and add: "uint B + uint B * p div 100 < 2 ^ 256"
  shows "\<exists>fp. finalPrice_of B vf = Inr fp"
proof -
  define b where "b = uint B"
  define k where "k = \<bar>sint vf\<bar>"
  have b0: "0 \<le> b" by (simp add: b_def)
  have k0: "0 \<le> k" by (simp add: k_def)
  have kp: "k \<le> p" using v by (simp add: k_def)
  have bk: "b * k \<le> b * p" using kp b0 by (rule mult_left_mono)
  then have bk256: "b * k < 2 ^ 256" using mul by (simp add: b_def)
  have d: "b * k div 100 \<le> b * p div 100" using bk by (rule zdiv_mono1) simp
  have "b * k \<le> b * 100" using kp p b0 by (intro mult_left_mono) linarith+
  then have "b * k div 100 \<le> b * 100 div 100" by (rule zdiv_mono1) simp
  then have dle: "b * k div 100 \<le> b" by simp
  show ?thesis
  proof (cases "0 \<le> sint vf")
    case True
    then have uv: "uint vf = k" using uint_of_nonneg_sint [of vf] by (simp add: k_def)
    have q: "checked_mul B vf = Inr (B * vf)"
      using bk256 by (simp add: checked_mul_def uv b_def)
    have uq: "uint (B * vf) = b * k" using checked_mul_uint [OF q] uv by (simp add: b_def)
    have "uint B + uint (B * vf div 100) < 2 ^ 256"
      using d add by (simp only: uint_div_100 uq) (simp add: b_def)
    then have "checked_add B (B * vf div 100) = Inr (B + B * vf div 100)"
      by (simp add: checked_add_def)
    then show ?thesis using True
      by (simp add: finalPrice_of_def q checked_div_100)
  next
    case False
    have "sint vf \<noteq> - (2 ^ 255)" using v p by auto
    then have m: "checked_neg_int vf = Inr (- vf)" by (simp add: checked_neg_int_def)
    have "sint (- vf) = - sint vf" using checked_neg_int_sint [OF m] by simp
    then have um: "uint (- vf) = k" using uint_of_nonneg_sint [of "- vf"] False by (simp add: k_def)
    have q: "checked_mul B (- vf) = Inr (B * (- vf))"
      using bk256 by (simp only: checked_mul_def um) (simp add: b_def)
    have uq: "uint (B * (- vf)) = b * k" using checked_mul_uint [OF q] um by (simp add: b_def)
    have "uint (B * (- vf) div 100) \<le> uint B"
      using dle by (simp only: uint_div_100 uq) (simp add: b_def)
    then have "checked_sub B (B * (- vf) div 100) = Inr (B - B * (- vf) div 100)"
      by (simp add: checked_sub_def)
    then show ?thesis using False
      by (simp only: finalPrice_of_def m q checked_div_100 sum.case if_False)  simp
  qed
qed

lemma finalPrice_of_small:
  assumes ne: "sint vf \<noteq> - (2 ^ 255)" and small: "uint B * \<bar>sint vf\<bar> < 100"
  shows "finalPrice_of B vf = Inr B"
proof (cases "0 \<le> sint vf")
  case True
  then have uv: "uint vf = \<bar>sint vf\<bar>" using uint_of_nonneg_sint [of vf] by simp
  have lt: "uint B * uint vf < 100" using small uv by simp
  then have q: "checked_mul B vf = Inr (B * vf)" by (simp add: checked_mul_def)
  have uq: "uint (B * vf) = uint B * uint vf" using checked_mul_uint [OF q] by simp
  have "uint (B * vf div 100) = 0" using lt by (simp only: uint_div_100 uq) simp
  then have z: "B * vf div 100 = 0" by (simp only: uint_0_iff)
  have f: "checked_add B 0 = Inr B" using uint_lt_2p256 [of B] by (simp add: checked_add_def)
  show ?thesis using True
    by (simp add: finalPrice_of_def q checked_div_100 z f)
next
  case False
  have m: "checked_neg_int vf = Inr (- vf)" using ne by (simp add: checked_neg_int_def)
  have "sint (- vf) = - sint vf" using checked_neg_int_sint [OF m] by simp
  then have um: "uint (- vf) = \<bar>sint vf\<bar>" using uint_of_nonneg_sint [of "- vf"] False by simp
  have lt: "uint B * uint (- vf) < 100" using small um by simp
  then have q: "checked_mul B (- vf) = Inr (B * (- vf))" by (simp add: checked_mul_def)
  have uq: "uint (B * (- vf)) = uint B * uint (- vf)" using checked_mul_uint [OF q] by simp
  have "uint (B * (- vf) div 100) = 0" using lt by (simp only: uint_div_100 uq) simp
  then have z: "B * (- vf) div 100 = 0" by (simp only: uint_0_iff)
  show ?thesis using False
    by (simp only: finalPrice_of_def m q checked_div_100 z sum.case if_False) (simp add: checked_sub_def)
qed

lemma example_vf:
  assumes "uint r mod 21 = 15"
  shows "variationFactor_of r 10 = Inr 5"
proof -
  have t: "checked_mul 2 10 = Inr 20" by (simp add: checked_mul_def)
  have m: "checked_add 20 1 = Inr 21" by (simp add: checked_add_def)
  have "uint (r mod 21) = uint (15 :: 256 word)" using assms by (simp add: uint_mod)
  then have "r mod 21 = 15" by (simp only: word_uint_eq_iff)
  then have x: "checked_mod r 21 = Inr 15" by (simp add: checked_mod_def)
  have v: "checked_sub_int 15 10 = Inr 5" by (simp add: checked_sub_int_def)
  show ?thesis by (simp add: variationFactor_of_def t m x v)
qed

lemma example_fp: "finalPrice_of 10000 5 = Inr 10500"
proof -
  have q: "checked_mul 10000 5 = Inr 50000" by (simp add: checked_mul_def)
  have a: "checked_div 50000 100 = Inr 500" by (simp add: checked_div_def)
  have f: "checked_add 10000 500 = Inr 10500" by (simp add: checked_add_def)
  show ?thesis by (simp add: finalPrice_of_def q a f)
qed

section \<open>Transactions and what they preserve\<close>

lemma storeRandomness_Inr:
  assumes "storeRandomness e j s = Inr (r, s')"
  obtains v sec ts where "r = (v, sec, ts)" and "\<not> userProvidedIdFulfilled s j" and
    "s' = s\<lparr> userProvidedIdToRandomValue := (userProvidedIdToRandomValue s)(j := v),
         userProvidedIdIsSecure := (userProvidedIdIsSecure s)(j := sec),
         userProvidedIdToTimestamp := (userProvidedIdToTimestamp s)(j := ts),
         userProvidedIdFulfilled := (userProvidedIdFulfilled s)(j := True),
         events := events s @ [RandomnessStored j v sec ts] \<rparr>"
proof -
  from assms have nf: "\<not> userProvidedIdFulfilled s j"
    by (simp add: storeRandomness_def split: if_splits)
  with assms obtain rng where rng: "srng e s = Inr rng"
    by (cases "srng e s") (simp_all add: storeRandomness_def)
  with assms nf obtain v sec ts where g: "getRandomNumber e rng = Some (v, sec, ts)"
    by (cases "getRandomNumber e rng") (auto simp add: storeRandomness_def)
  with assms nf rng have "v \<noteq> 0"
    by (auto simp add: storeRandomness_def split: if_splits)
  with assms nf rng g have "r = (v, sec, ts)" and
    "s' = s\<lparr> userProvidedIdToRandomValue := (userProvidedIdToRandomValue s)(j := v),
         userProvidedIdIsSecure := (userProvidedIdIsSecure s)(j := sec),
         userProvidedIdToTimestamp := (userProvidedIdToTimestamp s)(j := ts),
         userProvidedIdFulfilled := (userProvidedIdFulfilled s)(j := True),
         events := events s @ [RandomnessStored j v sec ts] \<rparr>"
    by (auto simp add: storeRandomness_def)
  with nf that show thesis by blast
qed

lemma same_record_refl: "same_record i s s"
  by (simp add: same_record_def)

lemma transact_cases:
  obtains (revert) err where "transact e a c s = (Inl err, s)"
  | (return) r s' where "dispatch e a c s = Inr (r, s')" and "transact e a c s = (Inr r, s')"
proof (cases "dispatch e a c s")
  case (Inl err)
  then have "transact e a c s = (Inl err, s)" by (simp add: transact_def)
  then show thesis by (rule revert)
next
  case (Inr p)
  obtain r s' where p: "p = (r, s')" by (cases p)
  with Inr have "transact e a c s = (Inr r, s')" by (simp add: transact_def)
  with Inr p show thesis using return by blast
qed

lemma dispatch_store_keeps:
  assumes "dispatch e a (StoreRandomness j) s = Inr (r, s')" and "userProvidedIdFulfilled s i"
  shows "same_record i s s'"
proof -
  from assms(1) obtain t where st: "storeRandomness e j s = Inr (t, s')"
    by (cases "storeRandomness e j s") auto
  from st show ?thesis
  proof (rule storeRandomness_Inr)
    fix v sec ts
    assume nf: "\<not> userProvidedIdFulfilled s j" and
      s': "s' = s\<lparr> userProvidedIdToRandomValue := (userProvidedIdToRandomValue s)(j := v),
         userProvidedIdIsSecure := (userProvidedIdIsSecure s)(j := sec),
         userProvidedIdToTimestamp := (userProvidedIdToTimestamp s)(j := ts),
         userProvidedIdFulfilled := (userProvidedIdFulfilled s)(j := True),
         events := events s @ [RandomnessStored j v sec ts] \<rparr>"
    from nf assms(2) have "i \<noteq> j" by auto
    then show ?thesis by (simp add: same_record_def s')
  qed
qed

lemma dispatch_view:
  assumes "is_view c" and "dispatch e a c s = Inr (r, s')"
  shows "s' = s"
proof (cases c)
  case (GetRandomValue i)
  with assms(2) show ?thesis by (simp split: prod.splits)
next
  case (GetRandomnessMeta i)
  with assms(2) show ?thesis by (simp split: prod.splits)
next
  case (GetNormalizedRandomValue i)
  with assms(2) show ?thesis by (simp split: sum.splits prod.splits)
next
  case (GetRandomPriceVariation i b p)
  with assms(2) show ?thesis by (simp split: sum.splits prod.splits)
qed (use assms in simp_all)

lemma updateRegistry_Inr:
  "updateRegistry a r s = Inr s' \<longleftrightarrow> a = owner s \<and> s' = s\<lparr> registry := r \<rparr>"
  by (auto simp: updateRegistry_def onlyOwner_def)

lemma withdraw_Inr:
  "withdraw e a s = Inr s' \<longleftrightarrow>
     a = owner s \<and> accepts_transfer e (owner s) (balance s) \<and> s' = s\<lparr> balance := 0 \<rparr>"
  by (auto simp: withdraw_def onlyOwner_def)

lemma dispatch_keeps:
  assumes d: "dispatch e a c s = Inr (r, s')" and f: "userProvidedIdFulfilled s i"
  shows "same_record i s s'"
proof (cases "is_view c")
  case True
  then have "s' = s" using d by (rule dispatch_view)
  then show ?thesis by (simp add: same_record_refl)
next
  case False
  then show ?thesis
  proof (cases c)
    case (StoreRandomness j)
    with d f show ?thesis using dispatch_store_keeps by blast
  next
    case (UpdateRegistry g)
    with d obtain t where "updateRegistry a g s = Inr t" and "s' = t"
      by (cases "updateRegistry a g s") auto
    then have "s' = s\<lparr> registry := g \<rparr>" by (simp add: updateRegistry_Inr)
    then show ?thesis by (simp add: same_record_def)
  next
    case Withdraw
    with d obtain t where "withdraw e a s = Inr t" and "s' = t"
      by (cases "withdraw e a s") auto
    then have "s' = s\<lparr> balance := 0 \<rparr>" by (simp add: withdraw_Inr)
    then show ?thesis by (simp add: same_record_def)
  next
    case (Receive v)
    with d have "s' = receive v s" by simp
    then show ?thesis by (simp add: same_record_def receive_def)
  qed simp_all
qed

lemma dispatch_owner:
  assumes d: "dispatch e a c s = Inr (r, s')"
  shows "owner s' = owner s"
proof (cases "is_view c")
  case True
  then have "s' = s" using d by (rule dispatch_view)
  then show ?thesis by simp
next
  case False
  then show ?thesis
  proof (cases c)
    case (StoreRandomness j)
    with d obtain t where st: "storeRandomness e j s = Inr (t, s')"
      by (cases "storeRandomness e j s") auto
    from st show ?thesis by (rule storeRandomness_Inr) simp
  next
    case (UpdateRegistry g)
    with d obtain t where "updateRegistry a g s = Inr t" and "s' = t"
      by (cases "updateRegistry a g s") auto
    then have "s' = s\<lparr> registry := g \<rparr>" by (simp add: updateRegistry_Inr)
    then show ?thesis by simp
  next
    case Withdraw
    with d obtain t where "withdraw e a s = Inr t" and "s' = t"
      by (cases "withdraw e a s") auto
    then have "s' = s\<lparr> balance := 0 \<rparr>" by (simp add: withdraw_Inr)
    then show ?thesis by simp
  next
    case (Receive v)
    with d have "s' = receive v s" by simp
    then show ?thesis by (simp add: receive_def)
  qed simp_all
qed

lemma transact_keeps:
  assumes "userProvidedIdFulfilled s i"
  shows "same_record i s (snd (transact e a c s))"
proof (cases rule: transact_cases [of e a c s])
  case (revert err)
  then show ?thesis by (simp add: same_record_refl)
next
  case (return r s')
  then show ?thesis using dispatch_keeps [OF return(1) assms] by simp
qed

lemma transact_owner: "owner (snd (transact e a c s)) = owner s"
proof (cases rule: transact_cases [of e a c s])
  case (revert err)
  then show ?thesis by simp
next
  case (return r s')
  then show ?thesis using dispatch_owner [OF return(1)] by simp
qed

lemma run_keeps:
  "userProvidedIdFulfilled s i \<Longrightarrow> same_record i s (run txs s)"
proof (induction txs arbitrary: s)
  case Nil
  then show ?case by (simp add: same_record_refl)
next
  case (Cons tx txs)
  obtain e a c where tx: "tx = (e, a, c)" by (cases tx)
  let ?s1 = "snd (transact e a c s)"
  have k: "same_record i s ?s1" using Cons.prems by (rule transact_keeps)
  then have "userProvidedIdFulfilled ?s1 i" using Cons.prems by (simp add: same_record_def)
  then have "same_record i ?s1 (run txs ?s1)" by (rule Cons.IH)
  with k show ?case by (simp add: tx same_record_def)
qed

lemma run_owner: "owner (run txs s) = owner s"
proof (induction txs arbitrary: s)
  case Nil
  show ?case by simp
next
  case (Cons tx txs)
  obtain e a c where tx: "tx = (e, a, c)" by (cases tx)
  show ?case by (simp add: tx Cons.IH transact_owner)
qed

section \<open>The concrete contract states\<close>

lemma srng_world: "srng (world b) deployed = Inr 2"
  by (simp add: deployed_def constructor_def srng_def world_def)

lemma getRandomNumber_world: "getRandomNumber (world b) 2 = Some b"
  by (simp add: world_def)

lemma deployed_unfulfilled: "\<not> userProvidedIdFulfilled deployed i"
  by (simp add: deployed_def constructor_def)

lemma owner_deployed: "owner deployed = 7"
  by (simp add: deployed_def constructor_def)


lemma storeRandomness_deployed:
  "storeRandomness (world (1275, True, 99)) 5 deployed =
     Inr ((1275, True, 99),
       deployed\<lparr> userProvidedIdToRandomValue := (userProvidedIdToRandomValue deployed)(5 := 1275),
                 userProvidedIdIsSecure := (userProvidedIdIsSecure deployed)(5 := True),
                 userProvidedIdToTimestamp := (userProvidedIdToTimestamp deployed)(5 := 99),
                 userProvidedIdFulfilled := (userProvidedIdFulfilled deployed)(5 := True),
                 events := events deployed @ [RandomnessStored 5 1275 True 99] \<rparr>)"
  unfolding storeRandomness_def srng_world
  by (simp add: getRandomNumber_world deployed_unfulfilled)

lemma stored5_eq:
  "stored5 =
     deployed\<lparr> userProvidedIdToRandomValue := (userProvidedIdToRandomValue deployed)(5 := 1275),
               userProvidedIdIsSecure := (userProvidedIdIsSecure deployed)(5 := True),
               userProvidedIdToTimestamp := (userProvidedIdToTimestamp deployed)(5 := 99),
               userProvidedIdFulfilled := (userProvidedIdFulfilled deployed)(5 := True),
               events := events deployed @ [RandomnessStored 5 1275 True 99] \<rparr>"
  by (simp add: stored5_def transact_def storeRandomness_deployed)

lemma stored5_fulfilled: "userProvidedIdFulfilled stored5 5"
  by (simp add: stored5_eq)

lemma stored5_value: "userProvidedIdToRandomValue stored5 5 = 1275"
  by (simp add: stored5_eq)

lemma store_already:
  assumes "userProvidedIdFulfilled s i"
  shows "transact e a (StoreRandomness i) s = (Inl (Revert ''Already fulfilled''), s)"
  using assms by (simp add: transact_def storeRandomness_def)



section \<open>Claims about the randomizer\<close>



text \<open>
  Claim C2. Once an id is fulfilled, no history of transactions of the contract, by any
  senders and in any outside world, changes its fulfilled flag, its random value, its
  security flag or its timestamp; and a later \<^verbatim>\<open>storeRandomness\<close> on the same id reverts
  with "Already fulfilled" and leaves the state as it was.
\<close>

theorem fulfilled_at_most_once:
  assumes "userProvidedIdFulfilled s i"
  shows "userProvidedIdFulfilled (run txs s) i \<and>
         userProvidedIdToRandomValue (run txs s) i = userProvidedIdToRandomValue s i \<and>
         userProvidedIdIsSecure (run txs s) i = userProvidedIdIsSecure s i \<and>
         userProvidedIdToTimestamp (run txs s) i = userProvidedIdToTimestamp s i \<and>
         transact e a (StoreRandomness i) (run txs s) =
           (Inl (Revert ''Already fulfilled''), run txs s)"
proof -
  have k: "same_record i s (run txs s)" using assms by (rule run_keeps)
  then have f: "userProvidedIdFulfilled (run txs s) i" using assms by (simp add: same_record_def)
  have "transact e a (StoreRandomness i) (run txs s) =
           (Inl (Revert ''Already fulfilled''), run txs s)"
    using f by (rule store_already)
  with k f show ?thesis by (simp add: same_record_def)
qed

theorem fulfilled_at_most_once_witness:
  "userProvidedIdFulfilled stored5 5 \<and>
   userProvidedIdToRandomValue
     (run [(world (77, False, 3), 9, StoreRandomness 5),
           (world (77, False, 3), 7, UpdateRegistry 4),
           (world (77, False, 3), 9, StoreRandomness 6),
           (world (77, False, 3), 7, Withdraw)] stored5) 5 = 1275 \<and>
   transact (world (78, True, 4)) 9 (StoreRandomness 5)
     (run [(world (77, False, 3), 9, StoreRandomness 5),
           (world (77, False, 3), 7, UpdateRegistry 4),
           (world (77, False, 3), 9, StoreRandomness 6),
           (world (77, False, 3), 7, Withdraw)] stored5) =
     (Inl (Revert ''Already fulfilled''),
      run [(world (77, False, 3), 9, StoreRandomness 5),
           (world (77, False, 3), 7, UpdateRegistry 4),
           (world (77, False, 3), 9, StoreRandomness 6),
           (world (77, False, 3), 7, Withdraw)] stored5)"
  using fulfilled_at_most_once [OF stored5_fulfilled, of
      "[(world (77, False, 3), 9, StoreRandomness 5),
           (world (77, False, 3), 7, UpdateRegistry 4),
           (world (77, False, 3), 9, StoreRandomness 6),
           (world (77, False, 3), 7, Withdraw)]" "world (78, True, 4)" 9]
    stored5_fulfilled stored5_value
  by (simp only:) 

text \<open>
  Claim C5. For a fulfilled id \<^verbatim>\<open>getNormalizedRandomValue\<close> returns the stored random value
  modulo 1000 with the flag true; the value lies between 0 and 999; and it depends on the
  stored random value alone: another id or another state with the same stored value gives
  the same result.
\<close>

theorem getNormalizedRandomValue_range:
  assumes "userProvidedIdFulfilled s i"
    and "userProvidedIdFulfilled s' j"
    and "userProvidedIdToRandomValue s' j = userProvidedIdToRandomValue s i"
  shows "getNormalizedRandomValue i s = Inr (userProvidedIdToRandomValue s i mod 1000, True) \<and>
         uint (userProvidedIdToRandomValue s i mod 1000) = uint (userProvidedIdToRandomValue s i) mod 1000 \<and>
         0 \<le> uint (userProvidedIdToRandomValue s i mod 1000) \<and>
         uint (userProvidedIdToRandomValue s i mod 1000) \<le> 999 \<and>
         getNormalizedRandomValue j s' = getNormalizedRandomValue i s"
proof -
  have u: "uint (userProvidedIdToRandomValue s i mod 1000) = uint (userProvidedIdToRandomValue s i) mod 1000"
    by (simp add: uint_mod)
  have "uint (userProvidedIdToRandomValue s i) mod 1000 < 1000" by simp
  then have b: "uint (userProvidedIdToRandomValue s i mod 1000) \<le> 999" by (simp only: u)
  have g: "getNormalizedRandomValue i s = Inr (userProvidedIdToRandomValue s i mod 1000, True)"
    using assms(1) by (simp add: getNormalizedRandomValue_def checked_mod_def)
  have g': "getNormalizedRandomValue j s' = Inr (userProvidedIdToRandomValue s i mod 1000, True)"
    using assms(2,3) by (simp add: getNormalizedRandomValue_def checked_mod_def)
  from u b g g' show ?thesis by simp
qed

theorem getNormalizedRandomValue_range_witness:
  "userProvidedIdFulfilled stored5 5 \<and>
   getNormalizedRandomValue 5 stored5 = Inr (275, True)"
  using getNormalizedRandomValue_range [OF stored5_fulfilled stored5_fulfilled refl] stored5_fulfilled
  by (simp add: stored5_value)

lemma transact_view:
  assumes "is_view c"
  shows "snd (transact e a c s) = s"
proof (cases rule: transact_cases [of e a c s])
  case (revert err)
  then show ?thesis by simp
next
  case (return r s')
  then show ?thesis using dispatch_view [OF assms return(1)] by simp
qed

text \<open>
  Claim C6. \<^verbatim>\<open>getRandomValue\<close>, \<^verbatim>\<open>getNormalizedRandomValue\<close> and
  \<^verbatim>\<open>getRandomPriceVariation\<close> leave the state of the contract as it was, and for an id
  that is not fulfilled each of them returns (it does not revert) with the flag false.
\<close>

theorem reads_do_not_mutate:
  "snd (transact e a (GetRandomValue i) s) = s \<and>
   snd (transact e a (GetNormalizedRandomValue i) s) = s \<and>
   snd (transact e a (GetRandomPriceVariation i b p) s) = s \<and>
   (\<not> userProvidedIdFulfilled s i \<longrightarrow>
      fst (transact e a (GetRandomValue i) s) = Inr (RValue (userProvidedIdToRandomValue s i) False) \<and>
      fst (transact e a (GetNormalizedRandomValue i) s) = Inr (RValue 0 False) \<and>
      fst (transact e a (GetRandomPriceVariation i b p) s) = Inr (RPrice b 0 False))"
proof (intro conjI impI)
  show "snd (transact e a (GetRandomValue i) s) = s" by (rule transact_view) simp
  show "snd (transact e a (GetNormalizedRandomValue i) s) = s" by (rule transact_view) simp
  show "snd (transact e a (GetRandomPriceVariation i b p) s) = s" by (rule transact_view) simp
next
  assume n: "\<not> userProvidedIdFulfilled s i"
  show "fst (transact e a (GetRandomValue i) s) = Inr (RValue (userProvidedIdToRandomValue s i) False)"
    using n by (simp add: transact_def getRandomValue_def)
  show "fst (transact e a (GetNormalizedRandomValue i) s) = Inr (RValue 0 False)"
    using n by (simp add: transact_def getNormalizedRandomValue_def)
  show "fst (transact e a (GetRandomPriceVariation i b p) s) = Inr (RPrice b 0 False)"
    using n by (simp add: transact_def getRandomPriceVariation_def)
qed

theorem reads_do_not_mutate_witness:
  "\<not> userProvidedIdFulfilled deployed 5 \<and>
   transact (world (77, False, 3)) 9 (GetRandomValue 5) deployed = (Inr (RValue 0 False), deployed) \<and>
   transact (world (77, False, 3)) 9 (GetNormalizedRandomValue 5) deployed = (Inr (RValue 0 False), deployed) \<and>
   transact (world (77, False, 3)) 9 (GetRandomPriceVariation 5 10000 10) deployed =
     (Inr (RPrice 10000 0 False), deployed)"
proof -
  have z: "userProvidedIdToRandomValue deployed 5 = 0" by (simp add: deployed_def constructor_def)
  note r = reads_do_not_mutate [of "world (77, False, 3)" 9 5 deployed 10000 10]
  from r deployed_unfulfilled [of 5] z show ?thesis
    by (simp only: prod_eq_iff fst_conv snd_conv) simp
qed

text \<open>
  Claim C9. The constructor sets the owner to the deployer, no history of transactions
  changes the owner, and \<^verbatim>\<open>updateRegistry\<close> and \<^verbatim>\<open>withdraw\<close> called by anyone else
  revert with "Only owner" and leave the state as it was.
\<close>

theorem owner_is_fixed:
  "owner (constructor a r) = a \<and>
   owner (run txs s) = owner s \<and>
   (a \<noteq> owner s \<longrightarrow>
      transact e a (UpdateRegistry r) s = (Inl (Revert ''Only owner''), s) \<and>
      transact e a Withdraw s = (Inl (Revert ''Only owner''), s))"
proof (intro conjI impI)
  show "owner (constructor a r) = a" by (simp add: constructor_def)
  show "owner (run txs s) = owner s" by (rule run_owner)
next
  assume n: "a \<noteq> owner s"
  then show "transact e a (UpdateRegistry r) s = (Inl (Revert ''Only owner''), s)"
    by (simp add: transact_def updateRegistry_def onlyOwner_def)
  from n show "transact e a Withdraw s = (Inl (Revert ''Only owner''), s)"
    by (simp add: transact_def withdraw_def onlyOwner_def)
qed

theorem owner_is_fixed_witness:
  "(8 :: address) \<noteq> owner deployed \<and>
   owner (run [(world (77, False, 3), 8, UpdateRegistry 4),
               (world (77, False, 3), 7, UpdateRegistry 4),
               (world (77, False, 3), 7, Withdraw)] deployed) = 7 \<and>
   transact (world (77, False, 3)) 8 (UpdateRegistry 4) deployed = (Inl (Revert ''Only owner''), deployed) \<and>
   transact (world (77, False, 3)) 8 Withdraw deployed = (Inl (Revert ''Only owner''), deployed)"
proof -
  have n: "(8 :: address) \<noteq> owner deployed" by (simp add: owner_deployed)
  note r = owner_is_fixed [of 8 4 "[(world (77, False, 3), 8, UpdateRegistry 4),
               (world (77, False, 3), 7, UpdateRegistry 4),
               (world (77, False, 3), 7, Withdraw)]" deployed "world (77, False, 3)"]
  from r n show ?thesis by (simp only: owner_deployed) simp
qed





lemma getRandomPriceVariation_Inr:
  assumes f: "userProvidedIdFulfilled s i"
    and g: "getRandomPriceVariation i B P s = Inr (fp, vf, fl)"
  shows "fl" and "variationFactor_of (userProvidedIdToRandomValue s i) P = Inr vf"
    and "finalPrice_of B vf = Inr fp"
proof -
  from f g obtain v where v: "variationFactor_of (userProvidedIdToRandomValue s i) P = Inr v"
    by (cases "variationFactor_of (userProvidedIdToRandomValue s i) P")
      (simp_all add: getRandomPriceVariation_def)
  with f g obtain q where q: "finalPrice_of B v = Inr q"
    by (cases "finalPrice_of B v") (simp_all add: getRandomPriceVariation_def)
  from f g v q have e: "fp = q \<and> vf = v \<and> fl"
    by (simp add: getRandomPriceVariation_def)
  from e show fl by simp
  from e v show "variationFactor_of (userProvidedIdToRandomValue s i) P = Inr vf" by simp
  from e q show "finalPrice_of B vf = Inr fp" by simp
qed

lemma getRandomPriceVariation_eq:
  assumes "userProvidedIdFulfilled s i"
    and "variationFactor_of (userProvidedIdToRandomValue s i) P = Inr vf"
    and "finalPrice_of B vf = Inr fp"
  shows "getRandomPriceVariation i B P s = Inr (fp, vf, True)"
  using assms by (simp add: getRandomPriceVariation_def)

text \<open>
  Claim C4, as amended. For a fulfilled id, whenever \<^verbatim>\<open>getRandomPriceVariation\<close> returns,
  the flag is true, the factor is the stored random value modulo \<open>2P + 1\<close> minus \<open>P\<close>, an
  integer between \<open>-P\<close> and \<open>P\<close>, and the final price is \<open>B + B * factor div 100\<close> for a
  factor that is not negative and \<open>B - B * |factor| div 100\<close> otherwise (the dividends are
  not negative, so the division truncates). The call does return when \<open>P\<close> is at most 100
  and neither \<open>B * P\<close> nor \<open>B + B * P div 100\<close> leaves 256 bits. With the stored value
  congruent to 15 modulo 21, base price 10000 and bound 10, it returns factor 5 and price
  10500.
\<close>

theorem getRandomPriceVariation_formula:
  assumes f: "userProvidedIdFulfilled s i"
  shows
   "(getRandomPriceVariation i B P s = Inr (fp, vf, fl) \<longrightarrow>
       fl \<and>
       sint vf = uint (userProvidedIdToRandomValue s i) mod (2 * uint P + 1) - uint P \<and>
       - uint P \<le> sint vf \<and> sint vf \<le> uint P \<and>
       uint fp = (if 0 \<le> sint vf then uint B + uint B * sint vf div 100
                  else uint B - uint B * \<bar>sint vf\<bar> div 100)) \<and>
    (uint P \<le> 100 \<and> uint B * uint P < 2 ^ 256 \<and> uint B + uint B * uint P div 100 < 2 ^ 256 \<longrightarrow>
       (\<exists>fp' vf'. getRandomPriceVariation i B P s = Inr (fp', vf', True))) \<and>
    (uint (userProvidedIdToRandomValue s i) mod 21 = 15 \<longrightarrow>
       getRandomPriceVariation i 10000 10 s = Inr (10500, 5, True))"
proof (intro conjI impI)
  assume g: "getRandomPriceVariation i B P s = Inr (fp, vf, fl)"
  note r = getRandomPriceVariation_Inr [OF f g]
  show fl by (rule r(1))
  show "sint vf = uint (userProvidedIdToRandomValue s i) mod (2 * uint P + 1) - uint P"
    using r(2) by (rule variationFactor_of_Inr(2))
  show "- uint P \<le> sint vf" using variationFactor_of_range [OF r(2)] by simp
  show "sint vf \<le> uint P" using variationFactor_of_range [OF r(2)] by simp
  show "uint fp = (if 0 \<le> sint vf then uint B + uint B * sint vf div 100
                  else uint B - uint B * \<bar>sint vf\<bar> div 100)"
    using r(3) by (rule finalPrice_of_Inr)
next
  assume h: "uint P \<le> 100 \<and> uint B * uint P < 2 ^ 256 \<and>
    uint B + uint B * uint P div 100 < 2 ^ 256"
  then have "uint P < 2 ^ 254" by simp
  then obtain v where v: "variationFactor_of (userProvidedIdToRandomValue s i) P = Inr v"
    using variationFactor_of_total by blast
  have "\<bar>sint v\<bar> \<le> uint P" using variationFactor_of_range [OF v] by linarith
  with h obtain q where q: "finalPrice_of B v = Inr q"
    using finalPrice_of_total [of v "uint P" B] by blast
  from f v q have "getRandomPriceVariation i B P s = Inr (q, v, True)"
    by (rule getRandomPriceVariation_eq)
  then show "\<exists>fp' vf'. getRandomPriceVariation i B P s = Inr (fp', vf', True)" by blast
next
  assume "uint (userProvidedIdToRandomValue s i) mod 21 = 15"
  then have "variationFactor_of (userProvidedIdToRandomValue s i) 10 = Inr 5" by (rule example_vf)
  with f show "getRandomPriceVariation i 10000 10 s = Inr (10500, 5, True)"
    using example_fp by (rule getRandomPriceVariation_eq)
qed

theorem getRandomPriceVariation_formula_witness:
  "userProvidedIdFulfilled stored5 5 \<and>
   uint (userProvidedIdToRandomValue stored5 5) mod 21 = 15 \<and>
   getRandomPriceVariation 5 10000 10 stored5 = Inr (10500, 5, True) \<and>
   sint (5 :: int256) = 1275 mod (2 * 10 + 1) - 10 \<and>
   uint (10500 :: uint256) = 10000 + 10000 * 5 div 100"
proof -
  have m: "uint (userProvidedIdToRandomValue stored5 5) mod 21 = 15"
    by (simp add: stored5_value)
  note r = getRandomPriceVariation_formula [OF stored5_fulfilled, of 10000 10 10500 5 True]
  from r m have g: "getRandomPriceVariation 5 10000 10 stored5 = Inr (10500, 5, True)" by blast
  with r have "sint (5 :: int256) = uint (userProvidedIdToRandomValue stored5 5) mod (2 * uint (10 :: uint256) + 1) - uint (10 :: uint256)"
    by blast
  then have s: "sint (5 :: int256) = 1275 mod (2 * 10 + 1) - 10" by (simp add: stored5_value)
  have u: "uint (10500 :: uint256) = 10000 + 10000 * 5 div 100" by simp
  from stored5_fulfilled m g s u show ?thesis by blast
qed

lemma vf_1275_200: "variationFactor_of 1275 200 = Inr (- 128)"
proof -
  have t: "checked_mul 2 200 = Inr 400" by (simp add: checked_mul_def)
  have m: "checked_add 400 1 = Inr 401" by (simp add: checked_add_def)
  have x: "checked_mod 1275 401 = Inr 72" by (simp add: checked_mod_def)
  have v: "checked_sub_int 72 200 = Inr (- 128)" by (simp add: checked_sub_int_def)
  show ?thesis by (simp add: variationFactor_of_def t m x v)
qed

lemma fp_100_m128: "finalPrice_of 100 (- 128) = Inl (Panic 17)"
proof -
  have n: "checked_neg_int (- 128) = Inr 128" by (simp add: checked_neg_int_def)
  have q: "checked_mul 100 128 = Inr 12800" by (simp add: checked_mul_def)
  have a: "checked_div 12800 100 = Inr 128" by (simp add: checked_div_def)
  have f: "checked_sub 100 128 = Inl (Panic 17)" by (simp add: checked_sub_def)
  have s: "\<not> 0 \<le> sint (- 128 :: 256 word)" by simp
  show ?thesis by (simp only: finalPrice_of_def s if_False n q a f sum.case)
qed

text \<open>
  Claim C4 as stated fails: with the stored value 1275, base price 100 and bound 200 the
  factor is \<open>72 - 200 = -128\<close>, the subtraction \<open>100 - 128\<close> underflows and the call
  reverts with \<^verbatim>\<open>Panic(0x11)\<close> instead of returning.
\<close>

theorem getRandomPriceVariation_reverts_counterexample:
  "userProvidedIdFulfilled stored5 5 \<and>
   getRandomPriceVariation 5 100 200 stored5 = Inl (Panic 17)"
  by (simp add: getRandomPriceVariation_def stored5_fulfilled stored5_value vf_1275_200 fp_100_m128)

text \<open>
  Claim C10. For a fulfilled id, whenever line 170 yields a factor and the base price
  times the magnitude of the factor is below 100, \<^verbatim>\<open>getRandomPriceVariation\<close> returns the
  base price itself as the final price, also for a factor that is not zero. Line 170
  yields a factor for every bound below \<open>2 ^ 254\<close>.
\<close>

theorem small_base_price_unchanged:
  "(userProvidedIdFulfilled s i \<and>
    variationFactor_of (userProvidedIdToRandomValue s i) P = Inr vf \<and>
    uint B * \<bar>sint vf\<bar> < 100 \<longrightarrow>
      getRandomPriceVariation i B P s = Inr (B, vf, True)) \<and>
   (uint P < 2 ^ 254 \<longrightarrow>
      (\<exists>vf'. variationFactor_of (userProvidedIdToRandomValue s i) P = Inr vf' \<and>
         sint vf' = uint (userProvidedIdToRandomValue s i) mod (2 * uint P + 1) - uint P))"
proof (intro conjI impI)
  assume h: "userProvidedIdFulfilled s i \<and>
    variationFactor_of (userProvidedIdToRandomValue s i) P = Inr vf \<and>
    uint B * \<bar>sint vf\<bar> < 100"
  then have v: "variationFactor_of (userProvidedIdToRandomValue s i) P = Inr vf" by simp
  have "uint P < 2 ^ 255" using v by (rule variationFactor_of_Inr(1))
  moreover have "- uint P \<le> sint vf" using variationFactor_of_range [OF v] by simp
  ultimately have "sint vf \<noteq> - (2 ^ 255)" by linarith
  then have "finalPrice_of B vf = Inr B" using h by (intro finalPrice_of_small) simp_all
  with h show "getRandomPriceVariation i B P s = Inr (B, vf, True)"
    by (intro getRandomPriceVariation_eq) simp_all
next
  assume "uint P < 2 ^ 254"
  then obtain v where v: "variationFactor_of (userProvidedIdToRandomValue s i) P = Inr v"
    using variationFactor_of_total by blast
  then have "sint v = uint (userProvidedIdToRandomValue s i) mod (2 * uint P + 1) - uint P"
    by (rule variationFactor_of_Inr(2))
  with v show "\<exists>vf'. variationFactor_of (userProvidedIdToRandomValue s i) P = Inr vf' \<and>
         sint vf' = uint (userProvidedIdToRandomValue s i) mod (2 * uint P + 1) - uint P"
    by blast
qed

theorem small_base_price_unchanged_witness:
  "userProvidedIdFulfilled stored5 5 \<and>
   variationFactor_of (userProvidedIdToRandomValue stored5 5) 10 = Inr 5 \<and>
   uint (10 :: uint256) * \<bar>sint (5 :: int256)\<bar> < 100 \<and>
   getRandomPriceVariation 5 10 10 stored5 = Inr (10, 5, True)"
proof -
  have m: "uint (userProvidedIdToRandomValue stored5 5) mod 21 = 15"
    by (simp add: stored5_value)
  then have v: "variationFactor_of (userProvidedIdToRandomValue stored5 5) 10 = Inr 5"
    by (rule example_vf)
  have b: "uint (10 :: uint256) * \<bar>sint (5 :: int256)\<bar> < 100" by simp
  note r = small_base_price_unchanged [of stored5 5 10 5 10]
  from r stored5_fulfilled v b have "getRandomPriceVariation 5 10 10 stored5 = Inr (10, 5, True)"
    by blast
  with stored5_fulfilled v b show ?thesis by blast
qed

section \<open>Claims about the Ledger\<close>

lemma deliverData_Delivered:
  assumes "requests L i = Some r" and "reqState r = Delivered"
  shows "deliverData cfg i resp pf L = Inl AlreadyDelivered"
  using assms by (simp add: deliverData_def)

lemma deliverData_Inr:
  assumes "deliverData cfg j resp pf L = Inr L'"
  obtains q where "requests L j = Some q" and "reqState q \<noteq> Delivered"
    and "requests L' = (requests L)(j \<mapsto> q\<lparr> reqState := Delivered,
           dataHash := Some (computeDataHash cfg j resp pf) \<rparr>)"
proof -
  from assms obtain q where q: "requests L j = Some q"
    by (cases "requests L j") (simp_all add: deliverData_def)
  with assms have nd: "reqState q \<noteq> Delivered"
    by (auto simp: deliverData_def split: if_splits)
  with assms q have v: "verifyProof cfg resp pf"
    by (auto simp: deliverData_def split: if_splits)
  with assms q nd have "requests L' = (requests L)(j \<mapsto> q\<lparr> reqState := Delivered,
           dataHash := Some (computeDataHash cfg j resp pf) \<rparr>)"
    by (auto simp: deliverData_def Let_def)
  with q nd that show thesis by blast
qed

lemma purchase_Inr:
  assumes "purchase cfg a j pay L = Inr L'"
  obtains "requests L j = None"
    and "requests L' = (requests L)(j \<mapsto>
           \<lparr> buyer = a, amountPaid = pay, reqState = Created, dataHash = None \<rparr>)"
proof -
  from assms have n: "requests L j = None"
    by (cases "requests L j") (simp_all add: purchase_def)
  with assms have "requests L' = (requests L)(j \<mapsto>
           \<lparr> buyer = a, amountPaid = pay, reqState = Created, dataHash = None \<rparr>)"
    by (auto simp: purchase_def split: if_splits)
  with n that show thesis by blast
qed

lemma ledger_apply_keeps:
  assumes r: "requests L i = Some r" and d: "reqState r = Delivered"
  shows "requests (snd (ledger_apply cfg x L)) i = Some r"
proof (cases x)
  case (Purchase a j pay)
  show ?thesis
  proof (cases "purchase cfg a j pay L")
    case (Inl err)
    with Purchase r show ?thesis by simp
  next
    case (Inr L')
    from Inr have "requests L' i = Some r"
    proof (rule purchase_Inr)
      assume n: "requests L j = None" and
        u: "requests L' = (requests L)(j \<mapsto>
           \<lparr> buyer = a, amountPaid = pay, reqState = Created, dataHash = None \<rparr>)"
      from n r have "i \<noteq> j" by auto
      with u r show ?thesis by simp
    qed
    with Purchase Inr show ?thesis by simp
  qed
next
  case (DeliverData j resp pf)
  show ?thesis
  proof (cases "deliverData cfg j resp pf L")
    case (Inl err)
    with DeliverData r show ?thesis by simp
  next
    case (Inr L')
    from Inr have "requests L' i = Some r"
    proof (rule deliverData_Inr)
      fix q
      assume q: "requests L j = Some q" and nd: "reqState q \<noteq> Delivered" and
        u: "requests L' = (requests L)(j \<mapsto> q\<lparr> reqState := Delivered,
           dataHash := Some (computeDataHash cfg j resp pf) \<rparr>)"
      from q nd r d have "i \<noteq> j" by auto
      with u r show ?thesis by simp
    qed
    with DeliverData Inr show ?thesis by simp
  qed
qed

lemma ledger_run_keeps:
  assumes "requests L i = Some r" and "reqState r = Delivered"
  shows "requests (ledger_run cfg xs L) i = Some r"
  using assms
proof (induction xs arbitrary: L)
  case Nil
  then show ?case by simp
next
  case (Cons x xs)
  have "requests (snd (ledger_apply cfg x L)) i = Some r"
    using Cons.prems by (rule ledger_apply_keeps)
  then have "requests (ledger_run cfg xs (snd (ledger_apply cfg x L))) i = Some r"
    using Cons.prems(2) by (rule Cons.IH)
  then show ?case by simp
qed

lemma delivery_success:
  assumes "is_delivery_of i x" and "fst (ledger_apply cfg x L) = Inr ()"
  shows "\<exists>r. requests (snd (ledger_apply cfg x L)) i = Some r \<and> reqState r = Delivered"
proof (cases x)
  case (Purchase a j pay)
  with assms(1) show ?thesis by simp
next
  case (DeliverData j resp pf)
  with assms(1) have ji: "j = i" by simp
  show ?thesis
  proof (cases "deliverData cfg j resp pf L")
    case (Inl err)
    with DeliverData assms(2) show ?thesis by simp
  next
    case (Inr L')
    from Inr have "\<exists>r. requests L' i = Some r \<and> reqState r = Delivered"
    proof (rule deliverData_Inr)
      fix q
      assume u: "requests L' = (requests L)(j \<mapsto> q\<lparr> reqState := Delivered,
           dataHash := Some (computeDataHash cfg j resp pf) \<rparr>)"
      then show ?thesis by (simp add: ji)
    qed
    with DeliverData Inr show ?thesis by simp
  qed
qed

lemma delivery_fails_when_delivered:
  assumes "requests L i = Some r" and "reqState r = Delivered" and "is_delivery_of i x"
  shows "ledger_apply cfg x L = (Inl AlreadyDelivered, L)"
proof (cases x)
  case (Purchase a j pay)
  with assms(3) show ?thesis by simp
next
  case (DeliverData j resp pf)
  with assms(3) have "j = i" by simp
  with DeliverData show ?thesis
    using deliverData_Delivered [OF assms(1,2), of cfg resp pf] by simp
qed

lemma deliveries_zero:
  assumes "requests L i = Some r" and "reqState r = Delivered"
  shows "deliveries cfg i xs L = 0"
  using assms
proof (induction xs arbitrary: L)
  case Nil
  show ?case by simp
next
  case (Cons x xs)
  obtain res L' where a: "ledger_apply cfg x L = (res, L')" by (cases "ledger_apply cfg x L")
  have k: "requests L' i = Some r"
    using ledger_apply_keeps [OF Cons.prems, of cfg x] a by simp
  have z: "deliveries cfg i xs L' = 0" using k Cons.prems(2) by (rule Cons.IH)
  have "\<not> (is_delivery_of i x \<and> res = Inr ())"
    using delivery_fails_when_delivered [OF Cons.prems, of x cfg] a by auto
  with a z show ?case by simp
qed

lemma deliveries_le_1: "deliveries cfg i xs L \<le> 1"
proof (induction xs arbitrary: L)
  case Nil
  show ?case by simp
next
  case (Cons x xs)
  obtain res L' where a: "ledger_apply cfg x L = (res, L')" by (cases "ledger_apply cfg x L")
  show ?case
  proof (cases "is_delivery_of i x \<and> res = Inr ()")
    case True
    then obtain r where "requests L' i = Some r" and "reqState r = Delivered"
      using delivery_success [of i x cfg L] a by auto
    then have "deliveries cfg i xs L' = 0" by (rule deliveries_zero)
    with a True show ?thesis by simp
  next
    case False
    with a Cons.IH [of L'] show ?thesis by auto
  qed
qed

lemma cfg0_simps:
  "minimumPayment cfg0 = 1" "verifyProof cfg0 resp p = (p \<noteq> [])"
  "computeDataHash cfg0 j resp p = resp"
  by (simp_all add: cfg0_def)

lemma purchase9:
  "purchase cfg0 3 9 10 ledger0 =
     Inr (ledger0\<lparr> requests := (requests ledger0)(9 \<mapsto>
                          \<lparr> buyer = 3, amountPaid = 10, reqState = Created, dataHash = None \<rparr>),
                   escrowed := escrowed ledger0 + 10,
                   ledger_events := ledger_events ledger0 @ [DataRequested 3 9] \<rparr>)"
  by (simp add: purchase_def ledger0_def cfg0_simps)

lemma deliver9:
  "ledger_apply cfg0 (DeliverData 9 1 [255])
     (ledger0\<lparr> requests := (requests ledger0)(9 \<mapsto>
                          \<lparr> buyer = 3, amountPaid = 10, reqState = Created, dataHash = None \<rparr>),
                   escrowed := escrowed ledger0 + 10,
                   ledger_events := ledger_events ledger0 @ [DataRequested 3 9] \<rparr>) =
     (Inr (), delivered9)"
  by (simp add: delivered9_def purchase9 deliverData_def cfg0_simps)

lemma delivered9_request:
  "requests delivered9 9 =
     Some \<lparr> buyer = 3, amountPaid = 10, reqState = Delivered, dataHash = Some 1 \<rparr>"
  by (simp add: delivered9_def purchase9 deliverData_def cfg0_simps)

lemma deliveries_once:
  "deliveries cfg0 9 [Purchase 3 9 10, DeliverData 9 1 [255], DeliverData 9 2 [1]] ledger0 = 1"
proof -
  let ?L1 = "ledger0\<lparr> requests := (requests ledger0)(9 \<mapsto>
                          \<lparr> buyer = 3, amountPaid = 10, reqState = Created, dataHash = None \<rparr>),
                   escrowed := escrowed ledger0 + 10,
                   ledger_events := ledger_events ledger0 @ [DataRequested 3 9] \<rparr>"
  have c: "deliveries cfg0 9 [DeliverData 9 2 [1]] delivered9 = 0"
    using delivered9_request by (rule deliveries_zero) simp
  have d: "ledger_apply cfg0 (Purchase 3 9 10) ledger0 = (Inr (), ?L1)"
    by (simp add: purchase9)
  have s1: "deliveries cfg0 9 [Purchase 3 9 10, DeliverData 9 1 [255], DeliverData 9 2 [1]] ledger0 =
      deliveries cfg0 9 [DeliverData 9 1 [255], DeliverData 9 2 [1]] ?L1"
    by (simp only: deliveries.simps(2) [of cfg0 9 "Purchase 3 9 10"] d prod.case is_delivery_of.simps)
      simp
  have s2: "deliveries cfg0 9 [DeliverData 9 1 [255], DeliverData 9 2 [1]] ?L1 =
      1 + deliveries cfg0 9 [DeliverData 9 2 [1]] delivered9"
    by (simp only: deliveries.simps(2) [of cfg0 9 "DeliverData 9 1 [255]"] deliver9 prod.case
        is_delivery_of.simps) simp
  show ?thesis by (simp only: s1 s2 c)
qed

text \<open>
  Claim C1. In every history of Ledger operations, from every Ledger, at most one
  \<^verbatim>\<open>deliverData\<close> for a given request id succeeds. Once the request is \<open>Delivered\<close>,
  \<^verbatim>\<open>deliverData\<close> with any response and any proof fails with \<open>AlreadyDelivered\<close> and
  leaves the Ledger as it was, no later \<^verbatim>\<open>deliverData\<close> for it succeeds, and the stored
  request (its data hash included) stays the same through every later operation.
\<close>

theorem deliverData_at_most_once:
  "deliveries cfg i xs L \<le> 1 \<and>
   (requests L i = Some r \<and> reqState r = Delivered \<longrightarrow>
      ledger_apply cfg (DeliverData i resp pf) L = (Inl AlreadyDelivered, L) \<and>
      deliveries cfg i xs L = 0 \<and>
      requests (ledger_run cfg xs L) i = Some r \<and>
      ledger_apply cfg (DeliverData i resp pf) (ledger_run cfg xs L) =
        (Inl AlreadyDelivered, ledger_run cfg xs L))"
proof (intro conjI impI)
  show "deliveries cfg i xs L \<le> 1" by (rule deliveries_le_1)
next
  assume h: "requests L i = Some r \<and> reqState r = Delivered"
  then have r: "requests L i = Some r" and d: "reqState r = Delivered" by simp_all
  show "ledger_apply cfg (DeliverData i resp pf) L = (Inl AlreadyDelivered, L)"
    using r d by (rule delivery_fails_when_delivered) simp
  show "deliveries cfg i xs L = 0" using r d by (rule deliveries_zero)
  show k: "requests (ledger_run cfg xs L) i = Some r" using r d by (rule ledger_run_keeps)
  show "ledger_apply cfg (DeliverData i resp pf) (ledger_run cfg xs L) =
        (Inl AlreadyDelivered, ledger_run cfg xs L)"
    using k d by (rule delivery_fails_when_delivered) simp
qed

theorem deliverData_at_most_once_witness:
  "requests delivered9 9 =
     Some \<lparr> buyer = 3, amountPaid = 10, reqState = Delivered, dataHash = Some 1 \<rparr> \<and>
   reqState \<lparr> buyer = 3, amountPaid = 10, reqState = Delivered, dataHash = Some (1 :: bytes32) \<rparr> = Delivered \<and>
   ledger_apply cfg0 (DeliverData 9 2 [1]) delivered9 = (Inl AlreadyDelivered, delivered9) \<and>
   requests (ledger_run cfg0 [DeliverData 9 2 [1], Purchase 4 9 10] delivered9) 9 =
     Some \<lparr> buyer = 3, amountPaid = 10, reqState = Delivered, dataHash = Some 1 \<rparr> \<and>
   deliveries cfg0 9 [DeliverData 9 2 [1], Purchase 4 9 10] delivered9 = 0 \<and>
   deliveries cfg0 9 [Purchase 3 9 10, DeliverData 9 1 [255], DeliverData 9 2 [1]] ledger0 = 1"
proof -
  have d: "reqState \<lparr> buyer = 3, amountPaid = 10, reqState = Delivered, dataHash = Some (1 :: bytes32) \<rparr> = Delivered"
    by simp
  note r = deliverData_at_most_once [of cfg0 9 "[DeliverData 9 2 [1], Purchase 4 9 10]" delivered9
      "\<lparr> buyer = 3, amountPaid = 10, reqState = Delivered, dataHash = Some 1 \<rparr>" 2 "[1]"]
  from r delivered9_request d deliveries_once show ?thesis by blast
qed

section \<open>Claims about the status query\<close>







end
